theory Spec2Isabelle
  imports Main
begin

section \<open>Status values\<close>

text \<open>
  The three status enumerations of the instance tracker. In the source they are unions of
  string literals; a value that may be \<^verbatim>\<open>undefined\<close> is an \<open>option\<close>, with \<open>None\<close> for
  \<^verbatim>\<open>undefined\<close>.
\<close>

datatype LocalStackContainerStatus = ContainerRunning | ContainerStopping | ContainerStopped

datatype HealthStatus = Healthy | Unhealthy

datatype LocalStackInstanceStatus = Starting | Running | Stopping | Stopped

section \<open>Deriving the instance status\<close>

text \<open>
  \<^verbatim>\<open>getLocalStackStatus(containerStatus, healthStatus, previousStatus)\<close>: a chain of early
  returns, kept in the order of the source. The result \<open>None\<close> is the source's
  \<^verbatim>\<open>undefined\<close>, which the caller \<^verbatim>\<open>deriveStatus\<close> does not write to the status cell.
  The body only compares its arguments and returns, so there is no failing branch.
\<close>

definition getLocalStackStatus ::
  "LocalStackContainerStatus option \<Rightarrow> HealthStatus option \<Rightarrow>
   LocalStackInstanceStatus option \<Rightarrow> LocalStackInstanceStatus option" where
  "getLocalStackStatus containerStatus healthStatus previousStatus =
     (if containerStatus = None then None
      else if containerStatus = Some ContainerRunning \<and> healthStatus = Some Healthy
        then Some Running
      else if containerStatus = Some ContainerRunning \<and> healthStatus = Some Unhealthy
        then (if previousStatus = Some Running \<or> previousStatus = Some Stopping
              then Some Stopping
              else Some Starting)
      else if containerStatus = Some ContainerRunning \<and> healthStatus = None
        then None
      else if containerStatus = Some ContainerStopping
        then Some Stopping
      else Some Stopped)"

section \<open>The coalescing scheduler\<close>

text \<open>
  \<^verbatim>\<open>createOnceImmediate(callback)\<close> keeps one variable, \<^verbatim>\<open>timeout\<close>, the handle of the
  immediate it has queued, and returns the trigger function. The model adds what the
  event loop and the promise machinery hold for this scheduler: how many immediates are
  queued and not yet run (\<open>queued\<close>), and how many runs of the callback have returned a
  result whose promise, with the \<^verbatim>\<open>finally\<close> handler attached, has not settled yet
  (\<open>executing\<close>). \<open>scheduled\<close> counts the calls of \<^verbatim>\<open>setImmediate\<close> and numbers the handles.
\<close>

record once_immediate =
  timeout :: "nat option"
  queued :: nat
  executing :: nat
  scheduled :: nat

text \<open>What one call \<^verbatim>\<open>callback()\<close> does: it throws, or it returns a value or a promise.\<close>

datatype work = ThrowsSync | ReturnsResult

text \<open>How a promise settles.\<close>

datatype settlement = Fulfilled | Rejected

definition createOnceImmediate :: once_immediate where
  "createOnceImmediate = \<lparr>timeout = None, queued = 0, executing = 0, scheduled = 0\<rparr>"

text \<open>
  The returned function: \<^verbatim>\<open>if (timeout) return; timeout = setImmediate(...)\<close>.
  An \<^verbatim>\<open>Immediate\<close> object is truthy, so the test is whether the variable is set.
\<close>

definition trigger :: "once_immediate \<Rightarrow> once_immediate" where
  "trigger s =
     (if timeout s \<noteq> None then s
      else s\<lparr>timeout := Some (scheduled s), queued := Suc (queued s),
             scheduled := Suc (scheduled s)\<rparr>)"

text \<open>
  The event loop runs a queued immediate: it evaluates
  \<^verbatim>\<open>Promise.resolve(callback()).finally(() => { timeout = undefined; })\<close>.
  When \<^verbatim>\<open>callback()\<close> throws, the exception leaves the immediate before
  \<^verbatim>\<open>Promise.resolve\<close> and \<^verbatim>\<open>finally\<close> are reached, so no handler is attached and
  \<^verbatim>\<open>timeout\<close> keeps its handle. Otherwise the handler waits for the promise to settle.
  With nothing queued there is nothing to run.
\<close>

definition begin_run :: "work \<Rightarrow> once_immediate \<Rightarrow> once_immediate" where
  "begin_run w s =
     (if queued s = 0 then s
      else case w of
             ThrowsSync \<Rightarrow> s\<lparr>queued := queued s - 1\<rparr>
           | ReturnsResult \<Rightarrow> s\<lparr>queued := queued s - 1, executing := Suc (executing s)\<rparr>)"

text \<open>
  The promise of a run settles and its \<^verbatim>\<open>finally\<close> handler clears \<^verbatim>\<open>timeout\<close>,
  whether the promise was fulfilled or rejected.
\<close>

definition settle :: "settlement \<Rightarrow> once_immediate \<Rightarrow> once_immediate" where
  "settle r s =
     (if executing s = 0 then s
      else s\<lparr>executing := executing s - 1, timeout := None\<rparr>)"

datatype once_event = Trigger | Begin work | Settled settlement

fun once_step :: "once_event \<Rightarrow> once_immediate \<Rightarrow> once_immediate" where
  "once_step Trigger s = trigger s"
| "once_step (Begin w) s = begin_run w s"
| "once_step (Settled r) s = settle r s"

fun once_exec :: "once_event list \<Rightarrow> once_immediate \<Rightarrow> once_immediate" where
  "once_exec [] s = s"
| "once_exec (ev # evs) s = once_exec evs (once_step ev s)"

text \<open>
  What holds of a scheduler in every state it reaches: at most one run is queued or
  executing, and while one is, \<^verbatim>\<open>timeout\<close> is set.
\<close>

definition once_inv :: "once_immediate \<Rightarrow> bool" where
  "once_inv s \<longleftrightarrow>
     queued s + executing s \<le> 1 \<and> (timeout s = None \<longrightarrow> queued s + executing s = 0)"

section \<open>The value cell\<close>

text \<open>
  An observer is a callback \<^verbatim>\<open>(value: T | undefined) => Promise<void> | void\<close>. The model
  gives each a number, by which the calls it receives are told apart, and a function that
  says what the call does with a given value: return (a value or a promise that is
  fulfilled), throw, or return a promise that is rejected. What a callback does to the
  cell itself while it runs (it may write or subscribe) is an event after its call.
\<close>

datatype cb_result = Returns | Throws | ReturnsRejected

type_synonym 'a Callback = "nat \<times> ('a option \<Rightarrow> cb_result)"

text \<open>
  Every invocation of an observer is recorded, oldest first: the replay made by
  \<^verbatim>\<open>onChange\<close> and the calls of the fan-out loop.
\<close>

datatype 'a call = Replay nat "'a option" | FanOut nat "'a option"

text \<open>
  \<^verbatim>\<open>createValueEmitter\<close> closes over \<^verbatim>\<open>currentValue\<close>, \<^verbatim>\<open>callbacks\<close> and the scheduler
  \<^verbatim>\<open>emit\<close>. \<open>fanout\<close> is the suspended \<^verbatim>\<open>for ... of\<close> loop of the scheduler's asynchronous
  callback: the index of the observer it calls next, \<open>None\<close> when no loop is suspended.
\<close>

record 'a ValueEmitter =
  currentValue :: "'a option"
  callbacks :: "'a Callback list"
  emit :: once_immediate
  fanout :: "nat option"
  calls :: "'a call list"

definition createValueEmitter :: "'a ValueEmitter" where
  "createValueEmitter =
     \<lparr>currentValue = None, callbacks = [], emit = createOnceImmediate, fanout = None,
      calls = []\<rparr>"

definition valueOf :: "'a ValueEmitter \<Rightarrow> 'a option" where
  "valueOf e = currentValue e"

text \<open>\<^verbatim>\<open>setValue\<close>: \<^verbatim>\<open>if (currentValue !== value) { currentValue = value; emit(); }\<close>\<close>

definition setValue :: "'a option \<Rightarrow> 'a ValueEmitter \<Rightarrow> 'a ValueEmitter" where
  "setValue v e =
     (if currentValue e \<noteq> v then e\<lparr>currentValue := v, emit := trigger (emit e)\<rparr> else e)"

text \<open>
  \<^verbatim>\<open>onChange\<close>: \<^verbatim>\<open>callbacks.push(callback)\<close>, then
  \<^verbatim>\<open>void Promise.resolve(callback(currentValue)).catch(() => {})\<close>. The call is made
  in the argument position, outside any handler: when it throws, \<^verbatim>\<open>onChange\<close> throws,
  after the push. A rejected promise is taken by the \<^verbatim>\<open>catch\<close>. The result pairs how
  \<^verbatim>\<open>onChange\<close> ends with the cell it leaves.
\<close>

text \<open>An observer that does the same with every value.\<close>

definition always :: "cb_result \<Rightarrow> 'a option \<Rightarrow> cb_result" where
  "always r v = r"

datatype outcome = Completed | Threw

definition onChange :: "'a Callback \<Rightarrow> 'a ValueEmitter \<Rightarrow> outcome \<times> 'a ValueEmitter" where
  "onChange callback e =
     (let e1 = e\<lparr>callbacks := callbacks e @ [callback]\<rparr>;
          e2 = e1\<lparr>calls := calls e1 @ [Replay (fst callback) (currentValue e1)]\<rparr>
      in case snd callback (currentValue e1) of
           Throws \<Rightarrow> (Threw, e2)
         | Returns \<Rightarrow> (Completed, e2)
         | ReturnsRejected \<Rightarrow> (Completed, e2))"

text \<open>
  One turn of \<^verbatim>\<open>for (const callback of callbacks) { try { await callback(currentValue); } catch {} }\<close>
  at index \<open>i\<close>. The array iterator compares the index with the length of the array as
  it is now; past the end the loop is over and the promise of the asynchronous function
  is fulfilled. Otherwise the observer is called with the value stored now, and whatever
  the call does (return, throw, reject) the loop goes on to the next index.
\<close>

definition iteration :: "nat \<Rightarrow> 'a ValueEmitter \<Rightarrow> 'a ValueEmitter" where
  "iteration i e =
     (if i < length (callbacks e)
      then e\<lparr>calls := calls e @ [FanOut (fst (callbacks e ! i)) (currentValue e)],
             fanout := Some (Suc i)\<rparr>
      else e\<lparr>fanout := None\<rparr>)"

text \<open>
  The three things the event loop does for a cell. The queued immediate runs: the
  asynchronous function is called, never throws, and runs up to its first \<^verbatim>\<open>await\<close>,
  that is through the first turn of the loop. A suspended loop resumes for one turn. Once
  the loop is over, the \<^verbatim>\<open>finally\<close> handler of the scheduler runs.
\<close>

datatype tick = EmitFires | LoopResumes | EmitSettles

fun tick_step :: "tick \<Rightarrow> 'a ValueEmitter \<Rightarrow> 'a ValueEmitter" where
  "tick_step EmitFires e =
     (if queued (emit e) = 0 then e
      else iteration 0 (e\<lparr>emit := begin_run ReturnsResult (emit e)\<rparr>))"
| "tick_step LoopResumes e = (case fanout e of None \<Rightarrow> e | Some i \<Rightarrow> iteration i e)"
| "tick_step EmitSettles e =
     (if fanout e = None then e\<lparr>emit := settle Fulfilled (emit e)\<rparr> else e)"

datatype 'a emitter_event = SetValue "'a option" | OnChange "'a Callback" | Tick tick

fun emitter_step :: "'a emitter_event \<Rightarrow> 'a ValueEmitter \<Rightarrow> 'a ValueEmitter" where
  "emitter_step (SetValue v) e = setValue v e"
| "emitter_step (OnChange callback) e = snd (onChange callback e)"
| "emitter_step (Tick t) e = tick_step t e"

fun emitter_exec :: "'a emitter_event list \<Rightarrow> 'a ValueEmitter \<Rightarrow> 'a ValueEmitter" where
  "emitter_exec [] e = e"
| "emitter_exec (ev # evs) e = emitter_exec evs (emitter_step ev e)"

text \<open>
  A whole fan-out with nothing in between: the immediate runs, the loop resumes once for
  each observer, and the scheduler settles.
\<close>

definition whole_fanout :: "'a ValueEmitter \<Rightarrow> 'a emitter_event list" where
  "whole_fanout e =
     Tick EmitFires # replicate (length (callbacks e)) (Tick LoopResumes) @ [Tick EmitSettles]"

text \<open>
  No run of the scheduler is queued or executing and no loop is suspended: the state of
  a cell between two fan-outs.
\<close>

definition idle :: "'a ValueEmitter \<Rightarrow> bool" where
  "idle e \<longleftrightarrow>
     timeout (emit e) = None \<and> queued (emit e) = 0 \<and> executing (emit e) = 0 \<and> fanout e = None"

text \<open>
  What holds of a cell in every state it reaches: its scheduler keeps its invariant, and
  a loop is suspended only while the one run is executing.
\<close>

definition emitter_inv :: "'a ValueEmitter \<Rightarrow> bool" where
  "emitter_inv e \<longleftrightarrow> once_inv (emit e) \<and> (fanout e \<noteq> None \<longrightarrow> executing (emit e) = 1)"

text \<open>The writes of an execution that change the stored value.\<close>

fun changing_writes :: "'a emitter_event list \<Rightarrow> 'a ValueEmitter \<Rightarrow> nat" where
  "changing_writes [] e = 0"
| "changing_writes (ev # evs) e =
     (case ev of SetValue v \<Rightarrow> (if currentValue e \<noteq> v then 1 else 0) | _ \<Rightarrow> 0)
     + changing_writes evs (emitter_step ev e)"

text \<open>The values the fan-out loop has delivered, oldest first.\<close>

fun delivered :: "'a call list \<Rightarrow> 'a option list" where
  "delivered [] = []"
| "delivered (Replay k v # cs) = delivered cs"
| "delivered (FanOut k v # cs) = v # delivered cs"

section \<open>The health poll loop\<close>

text \<open>
  \<^verbatim>\<open>createHealthStatusTracker(timeTracker)\<close> closes over the cell \<^verbatim>\<open>status\<close> (here
  \<open>health\<close>), the timer handle \<^verbatim>\<open>healthCheckTimeout\<close> and the flag \<^verbatim>\<open>enqueueAgain\<close>.
  The model adds what the event loop holds for the tracker: the armed timers by handle
  (\<open>timers\<close>), the count of \<^verbatim>\<open>setTimeout\<close> calls, which numbers the handles
  (\<open>timers_set\<close>), the probes that wait for \<^verbatim>\<open>fetchHealth()\<close> (\<open>in_flight\<close>), and the
  fulfilled promises of \<^verbatim>\<open>fetchAndUpdateStatus()\<close> whose \<^verbatim>\<open>then\<close> callback has not
  run yet (\<open>continuations\<close>), and the rejected promises that were left without a handler
  (\<open>unhandled\<close>): each is an exception that has left the probe cycle.

  The probe \<^verbatim>\<open>fetchHealth\<close> is imported from \<^verbatim>\<open>manage.ts\<close> and the time tracker is an
  argument of the constructor; the tracker fixes neither.
  How the promise of \<^verbatim>\<open>fetchHealth()\<close> settles is an event: it resolves to a boolean or
  it is rejected (a call that throws ends the asynchronous function with a rejection as
  well), and the loop is modelled for both. The time tracker is the constructor's argument:
  \<^verbatim>\<open>timeTracker.run(name, fn)\<close> is taken to call \<^verbatim>\<open>fn\<close> once, and \<open>timeTracker\<close> says how
  the promise of \<^verbatim>\<open>run\<close> settles, given how the promise of \<^verbatim>\<open>fn\<close> did.
\<close>

record health_tracker =
  health :: "HealthStatus ValueEmitter"
  healthCheckTimeout :: "nat option"
  enqueueAgain :: bool
  timers :: "nat list"
  timers_set :: nat
  in_flight :: nat
  continuations :: nat
  unhandled :: nat
  timeTracker :: "settlement \<Rightarrow> settlement"

text \<open>How the promise of \<^verbatim>\<open>fetchHealth()\<close> settles.\<close>

datatype probe = Resolves bool | Rejects



definition createHealthStatusTracker :: "(settlement \<Rightarrow> settlement) \<Rightarrow> health_tracker" where
  "createHealthStatusTracker tt =
     \<lparr>health = createValueEmitter, healthCheckTimeout = None, enqueueAgain = False,
      timers = [], timers_set = 0, in_flight = 0, continuations = 0, unhandled = 0,
      timeTracker = tt\<rparr>"

definition healthStatus :: "health_tracker \<Rightarrow> HealthStatus option" where
  "healthStatus t = valueOf (health t)"

definition updateStatus :: "HealthStatus option \<Rightarrow> health_tracker \<Rightarrow> health_tracker" where
  "updateStatus newStatus t = t\<lparr>health := setValue newStatus (health t)\<rparr>"

text \<open>
  \<^verbatim>\<open>clearTimeout(handle)\<close> disarms the timer of that handle; with \<^verbatim>\<open>undefined\<close>, or the
  handle of a timer that has fired, it does nothing.
\<close>

definition clearTimeout :: "nat option \<Rightarrow> nat list \<Rightarrow> nat list" where
  "clearTimeout h ts = (case h of None \<Rightarrow> ts | Some k \<Rightarrow> removeAll k ts)"

text \<open>
  \<^verbatim>\<open>enqueueUpdateStatus\<close>: \<^verbatim>\<open>if (healthCheckTimeout) return;\<close> then
  \<^verbatim>\<open>healthCheckTimeout = setTimeout(..., 1_000)\<close>.
\<close>

definition enqueueUpdateStatus :: "health_tracker \<Rightarrow> health_tracker" where
  "enqueueUpdateStatus t =
     (if healthCheckTimeout t \<noteq> None then t
      else t\<lparr>healthCheckTimeout := Some (timers_set t), timers := timers t @ [timers_set t],
             timers_set := Suc (timers_set t)\<rparr>)"

definition start :: "health_tracker \<Rightarrow> health_tracker" where
  "start t = enqueueUpdateStatus (t\<lparr>enqueueAgain := True\<rparr>)"

definition stop :: "health_tracker \<Rightarrow> health_tracker" where
  "stop t =
     (let t1 = t\<lparr>health := setValue None (health t)\<rparr>;
          t2 = t1\<lparr>enqueueAgain := False\<rparr>;
          t3 = t2\<lparr>timers := clearTimeout (healthCheckTimeout t2) (timers t2)\<rparr>
      in t3\<lparr>healthCheckTimeout := None\<rparr>)"

definition dispose :: "health_tracker \<Rightarrow> health_tracker" where
  "dispose t = t\<lparr>timers := clearTimeout (healthCheckTimeout t) (timers t)\<rparr>"

text \<open>
  An armed timer fires: its callback calls \<^verbatim>\<open>fetchAndUpdateStatus()\<close>, which runs up to
  \<^verbatim>\<open>await fetchHealth()\<close>.
\<close>

definition timer_fires :: "nat \<Rightarrow> health_tracker \<Rightarrow> health_tracker" where
  "timer_fires k t =
     (if k \<in> set (timers t)
      then t\<lparr>timers := removeAll k (timers t), in_flight := Suc (in_flight t)\<rparr>
      else t)"

text \<open>
  The promise of \<^verbatim>\<open>run\<close> settles. The timer callback is
  \<^verbatim>\<open>void fetchAndUpdateStatus().then(() => ...)\<close>: a fulfilled promise queues the
  \<^verbatim>\<open>then\<close> callback. \<^verbatim>\<open>then\<close> is given no rejection handler and \<^verbatim>\<open>void\<close> drops the
  promise it returns: a rejection passes through to a promise nobody handles, and the
  callback that re-arms the timer does not run.
\<close>

definition run_settles :: "settlement \<Rightarrow> health_tracker \<Rightarrow> health_tracker" where
  "run_settles r t =
     (case r of
        Fulfilled \<Rightarrow> t\<lparr>continuations := Suc (continuations t)\<rparr>
      | Rejected \<Rightarrow> t\<lparr>unhandled := Suc (unhandled t)\<rparr>)"

text \<open>
  The promise of \<^verbatim>\<open>fetchHealth()\<close> settles and the function given to \<^verbatim>\<open>run\<close> resumes:
  \<^verbatim>\<open>const newStatus = (await fetchHealth()) ? "healthy" : "unhealthy"; updateStatus(newStatus);\<close>
  There is no handler around the \<^verbatim>\<open>await\<close>: a rejection ends the function before
  \<^verbatim>\<open>updateStatus\<close> and rejects its promise.
\<close>

definition probe_settles :: "probe \<Rightarrow> health_tracker \<Rightarrow> health_tracker" where
  "probe_settles r t =
     (if in_flight t = 0 then t
      else let t1 = t\<lparr>in_flight := in_flight t - 1\<rparr>
           in case r of
                Resolves ok \<Rightarrow>
                  (let t2 = updateStatus (Some (if ok then Healthy else Unhealthy)) t1
                   in run_settles (timeTracker t2 Fulfilled) t2)
              | Rejects \<Rightarrow> run_settles (timeTracker t1 Rejected) t1)"

text \<open>
  The \<^verbatim>\<open>then\<close> callback:
  \<^verbatim>\<open>if (!enqueueAgain) { return; } healthCheckTimeout = undefined; enqueueUpdateStatus();\<close>
\<close>

definition then_runs :: "health_tracker \<Rightarrow> health_tracker" where
  "then_runs t =
     (if continuations t = 0 then t
      else let t1 = t\<lparr>continuations := continuations t - 1\<rparr>
           in if \<not> enqueueAgain t1 then t1
              else enqueueUpdateStatus (t1\<lparr>healthCheckTimeout := None\<rparr>))"

datatype health_event =
  Start | Stop | Dispose | Subscribe "HealthStatus Callback"
  | TimerFires nat | ProbeSettles probe | ThenRuns | StatusTick tick

fun health_step :: "health_event \<Rightarrow> health_tracker \<Rightarrow> health_tracker" where
  "health_step Start t = start t"
| "health_step Stop t = stop t"
| "health_step Dispose t = dispose t"
| "health_step (Subscribe callback) t = t\<lparr>health := snd (onChange callback (health t))\<rparr>"
| "health_step (TimerFires k) t = timer_fires k t"
| "health_step (ProbeSettles r) t = probe_settles r t"
| "health_step ThenRuns t = then_runs t"
| "health_step (StatusTick k) t = t\<lparr>health := tick_step k (health t)\<rparr>"

fun health_exec :: "health_event list \<Rightarrow> health_tracker \<Rightarrow> health_tracker" where
  "health_exec [] t = t"
| "health_exec (ev # evs) t = health_exec evs (health_step ev t)"

section \<open>The instance status tracker\<close>

text \<open>
  The state \<^verbatim>\<open>createLocalStackInstanceStatusTracker\<close> closes over: the last container
  status seen, the cell of the instance status and the health poll loop.
\<close>

record instance_tracker =
  containerStatus :: "LocalStackContainerStatus option"
  status :: "LocalStackInstanceStatus ValueEmitter"
  healthCheckStatusTracker :: health_tracker

text \<open>
  The tracker as its constructor leaves it when the container status source has reported
  nothing yet: the replays of the subscriptions and the closing \<^verbatim>\<open>deriveStatus()\<close> then
  derive no status. The constructor has subscribed one observer to the instance status
  cell and one to the health cell; both return without a value.
\<close>

definition createLocalStackInstanceStatusTracker ::
  "(settlement \<Rightarrow> settlement) \<Rightarrow> instance_tracker" where
  "createLocalStackInstanceStatusTracker tt =
     \<lparr>containerStatus = None,
      status = snd (onChange (0, always Returns) createValueEmitter),
      healthCheckStatusTracker =
        health_step (Subscribe (0, always Returns)) (createHealthStatusTracker tt)\<rparr>"

definition instanceStatus :: "instance_tracker \<Rightarrow> LocalStackInstanceStatus option" where
  "instanceStatus t = valueOf (status t)"

text \<open>
  \<^verbatim>\<open>deriveStatus\<close>: \<^verbatim>\<open>if (newStatus) { setStatus(newStatus); }\<close>; every status is a
  non-empty string, so the test is whether a status was returned.
\<close>

definition deriveStatus :: "instance_tracker \<Rightarrow> instance_tracker" where
  "deriveStatus t =
     (case getLocalStackStatus (containerStatus t) (healthStatus (healthCheckStatusTracker t))
             (valueOf (status t)) of
        None \<Rightarrow> t
      | Some newStatus \<Rightarrow> t\<lparr>status := setValue (Some newStatus) (status t)\<rparr>)"

definition forceContainerStatus ::
  "LocalStackContainerStatus \<Rightarrow> instance_tracker \<Rightarrow> instance_tracker" where
  "forceContainerStatus newContainerStatus t =
     (let t1 = t\<lparr>containerStatus := Some newContainerStatus\<rparr>
      in if newContainerStatus = ContainerRunning
           then t1\<lparr>status := setValue (Some Starting) (status t1)\<rparr>
         else if newContainerStatus = ContainerStopping
           then t1\<lparr>status := setValue (Some Stopping) (status t1)\<rparr>
         else t1)"

section \<open>The derivation table\<close>

text \<open>
  Claim C1. \<open>getLocalStackStatus\<close> returns a result for every combination of container
  status, health status and previous instance status, and the result is the one of the
  table: no container status gives no status; a running container with a healthy probe
  gives running; a running container with an unhealthy probe gives stopping when the
  previous status is running or stopping, and starting for each of the three other
  previous statuses; a running container with no health value gives no change; a stopping
  container gives stopping and a stopped container gives stopped, whatever the health
  value and the previous status are.
\<close>

theorem getLocalStackStatus_table:
  "getLocalStackStatus None h p = None
   \<and> getLocalStackStatus (Some ContainerRunning) (Some Healthy) p = Some Running
   \<and> getLocalStackStatus (Some ContainerRunning) (Some Unhealthy) (Some Running) = Some Stopping
   \<and> getLocalStackStatus (Some ContainerRunning) (Some Unhealthy) (Some Stopping) = Some Stopping
   \<and> getLocalStackStatus (Some ContainerRunning) (Some Unhealthy) None = Some Starting
   \<and> getLocalStackStatus (Some ContainerRunning) (Some Unhealthy) (Some Starting) = Some Starting
   \<and> getLocalStackStatus (Some ContainerRunning) (Some Unhealthy) (Some Stopped) = Some Starting
   \<and> getLocalStackStatus (Some ContainerRunning) None p = None
   \<and> getLocalStackStatus (Some ContainerStopping) h p = Some Stopping
   \<and> getLocalStackStatus (Some ContainerStopped) h p = Some Stopped"
  by (simp add: getLocalStackStatus_def)

theorem getLocalStackStatus_table_witness:
  "getLocalStackStatus None (Some Healthy) (Some Running) = None
   \<and> getLocalStackStatus (Some ContainerRunning) (Some Unhealthy) (Some Running) = Some Stopping
   \<and> getLocalStackStatus (Some ContainerRunning) (Some Unhealthy) None = Some Starting
   \<and> getLocalStackStatus (Some ContainerStopped) (Some Healthy) (Some Running) = Some Stopped"
  using getLocalStackStatus_table [of "Some Healthy" "Some Running"] by simp

section \<open>The scheduler: what a trigger does while a run is pending or executing\<close>

text \<open>The invariant holds at creation and every event keeps it.\<close>

lemma once_inv_init: "once_inv createOnceImmediate"
  by (simp add: once_inv_def createOnceImmediate_def)

lemma once_inv_step: "once_inv s \<Longrightarrow> once_inv (once_step ev s)"
  by (cases ev) (auto simp: once_inv_def trigger_def begin_run_def settle_def split: work.splits)

lemma once_inv_exec: "once_inv s \<Longrightarrow> once_inv (once_exec evs s)"
  by (induction evs arbitrary: s) (simp_all add: once_inv_step)

lemma trigger_while_busy: "once_inv s \<Longrightarrow> 0 < queued s + executing s \<Longrightarrow> trigger s = s"
  by (auto simp: once_inv_def trigger_def)

lemma trigger_after_settle:
  "once_inv s \<Longrightarrow> 0 < executing s \<Longrightarrow>
     queued (trigger (settle r s)) = 1 \<and> scheduled (trigger (settle r s)) = Suc (scheduled s)"
  by (auto simp: once_inv_def trigger_def settle_def)

text \<open>
  Claim C2, as the specification states it, at a concrete execution: one trigger, then the
  run begins and its promise has not settled. The claim says that the flag is cleared
  by then and that a trigger made now schedules a new run. Here \<^verbatim>\<open>timeout\<close> still holds
  the handle numbered 0, and a further trigger changes nothing: one run was scheduled,
  none is queued.
\<close>

theorem trigger_during_run_counterexample:
  "timeout (once_exec [Trigger, Begin ReturnsResult] createOnceImmediate) = Some 0
   \<and> executing (once_exec [Trigger, Begin ReturnsResult] createOnceImmediate) = 1
   \<and> once_exec [Trigger, Begin ReturnsResult, Trigger] createOnceImmediate
       = once_exec [Trigger, Begin ReturnsResult] createOnceImmediate
   \<and> scheduled (once_exec [Trigger, Begin ReturnsResult, Trigger] createOnceImmediate) = 1
   \<and> queued (once_exec [Trigger, Begin ReturnsResult, Trigger] createOnceImmediate) = 0"
  by (simp add: createOnceImmediate_def trigger_def begin_run_def)

text \<open>
  Claim C2, amended. In every state the scheduler reaches from its creation: while a run
  is pending (queued and not begun), a trigger changes nothing, so the triggers are merged
  into that run; while a run is executing (begun and not settled), \<^verbatim>\<open>timeout\<close> is still
  set and a trigger changes nothing either; once the promise of that run has settled,
  whatever way, a trigger queues a new run.
\<close>

theorem trigger_coalesces:
  "(0 < queued (once_exec evs createOnceImmediate)
      \<longrightarrow> trigger (once_exec evs createOnceImmediate) = once_exec evs createOnceImmediate)
   \<and> (0 < executing (once_exec evs createOnceImmediate)
      \<longrightarrow> timeout (once_exec evs createOnceImmediate) \<noteq> None
          \<and> trigger (once_exec evs createOnceImmediate) = once_exec evs createOnceImmediate
          \<and> queued (trigger (settle r (once_exec evs createOnceImmediate))) = 1
          \<and> scheduled (trigger (settle r (once_exec evs createOnceImmediate)))
              = Suc (scheduled (once_exec evs createOnceImmediate)))"
proof -
  let ?s = "once_exec evs createOnceImmediate"
  have inv: "once_inv ?s"
    by (rule once_inv_exec) (rule once_inv_init)
  have "0 < queued ?s \<Longrightarrow> trigger ?s = ?s"
    using trigger_while_busy [OF inv] by simp
  moreover have "0 < executing ?s \<Longrightarrow> trigger ?s = ?s"
    using trigger_while_busy [OF inv] by simp
  moreover have "0 < executing ?s \<Longrightarrow> timeout ?s \<noteq> None"
    using inv by (auto simp: once_inv_def)
  ultimately show ?thesis
    using trigger_after_settle [OF inv, of r] by blast
qed

theorem trigger_coalesces_witness:
  "0 < queued (once_exec [Trigger] createOnceImmediate)
   \<and> trigger (once_exec [Trigger] createOnceImmediate) = once_exec [Trigger] createOnceImmediate
   \<and> 0 < executing (once_exec [Trigger, Begin ReturnsResult] createOnceImmediate)
   \<and> trigger (once_exec [Trigger, Begin ReturnsResult] createOnceImmediate)
       = once_exec [Trigger, Begin ReturnsResult] createOnceImmediate
   \<and> scheduled (trigger (settle Fulfilled (once_exec [Trigger, Begin ReturnsResult] createOnceImmediate))) = 2"
proof -
  have q: "0 < queued (once_exec [Trigger] createOnceImmediate)"
    by (simp add: createOnceImmediate_def trigger_def)
  have x: "0 < executing (once_exec [Trigger, Begin ReturnsResult] createOnceImmediate)"
    by (simp add: createOnceImmediate_def trigger_def begin_run_def)
  have n: "scheduled (once_exec [Trigger, Begin ReturnsResult] createOnceImmediate) = 1"
    by (simp add: createOnceImmediate_def trigger_def begin_run_def)
  show ?thesis
    using q x n trigger_coalesces [of "[Trigger]" Fulfilled]
      trigger_coalesces [of "[Trigger, Begin ReturnsResult]" Fulfilled]
    by simp
qed

section \<open>The scheduler: a unit of work that fails\<close>

lemma wedged_step:
  "once_step ev \<lparr>timeout = Some h, queued = 0, executing = 0, scheduled = n\<rparr>
     = \<lparr>timeout = Some h, queued = 0, executing = 0, scheduled = n\<rparr>"
  by (cases ev) (simp_all add: trigger_def begin_run_def settle_def)

lemma wedged_exec:
  "once_exec evs \<lparr>timeout = Some h, queued = 0, executing = 0, scheduled = n\<rparr>
     = \<lparr>timeout = Some h, queued = 0, executing = 0, scheduled = n\<rparr>"
  by (induction evs) (simp_all add: wedged_step)

text \<open>
  Claim C7, at the failing input: a unit of work that throws when it is called. After one
  trigger and the run that throws, \<^verbatim>\<open>timeout\<close> holds its handle with nothing queued and
  nothing executing, and no sequence of triggers and event-loop steps changes that state:
  no run is scheduled again. A unit of work whose promise is rejected does clear the flag:
  the trigger after it schedules the second run.
\<close>

theorem sync_throw_wedges:
  "once_exec evs (once_exec [Trigger, Begin ThrowsSync] createOnceImmediate)
     = \<lparr>timeout = Some 0, queued = 0, executing = 0, scheduled = 1\<rparr>
   \<and> scheduled (once_exec [Trigger, Begin ReturnsResult, Settled Rejected, Trigger]
        createOnceImmediate) = 2"
proof -
  have "once_exec [Trigger, Begin ThrowsSync] createOnceImmediate
          = \<lparr>timeout = Some 0, queued = 0, executing = 0, scheduled = 1\<rparr>"
    by (simp add: createOnceImmediate_def trigger_def begin_run_def)
  moreover have "scheduled (once_exec [Trigger, Begin ReturnsResult, Settled Rejected, Trigger]
        createOnceImmediate) = 2"
    by (simp add: createOnceImmediate_def trigger_def begin_run_def settle_def)
  ultimately show ?thesis
    by (simp add: wedged_exec)
qed

theorem sync_throw_wedges_witness:
  "scheduled (once_exec [Trigger, Begin ThrowsSync, Trigger, Settled Rejected, Trigger] createOnceImmediate) = 1"
  using sync_throw_wedges [of "[Trigger, Settled Rejected, Trigger]"] by simp

section \<open>The value cell: reachable states\<close>

text \<open>
  The invariant holds of a new cell and every event keeps it, so a cell whose scheduler
  has no handle in \<^verbatim>\<open>timeout\<close> is idle.
\<close>

lemma emitter_inv_init: "emitter_inv createValueEmitter"
  by (simp add: emitter_inv_def createValueEmitter_def once_inv_init)

lemma emitter_inv_tick: "emitter_inv e \<Longrightarrow> emitter_inv (tick_step k e)"
  by (cases k)
    (auto simp: emitter_inv_def once_inv_def iteration_def begin_run_def settle_def
      split: option.splits)

lemma emitter_inv_step: "emitter_inv e \<Longrightarrow> emitter_inv (emitter_step ev e)"
proof (cases ev)
  case (SetValue v)
  assume "emitter_inv e"
  then show ?thesis
    using SetValue by (auto simp: emitter_inv_def once_inv_def setValue_def trigger_def)
next
  case (OnChange c)
  assume "emitter_inv e"
  then show ?thesis
    using OnChange by (auto simp: emitter_inv_def onChange_def Let_def split: cb_result.splits)
next
  case (Tick k)
  assume "emitter_inv e"
  then show ?thesis
    using Tick by (simp add: emitter_inv_tick)
qed

lemma emitter_inv_exec: "emitter_inv e \<Longrightarrow> emitter_inv (emitter_exec evs e)"
  by (induction evs arbitrary: e) (simp_all add: emitter_inv_step)

lemma reachable_idle:
  "timeout (emit (emitter_exec evs createValueEmitter)) = None
     \<Longrightarrow> idle (emitter_exec evs createValueEmitter)"
  using emitter_inv_exec [OF emitter_inv_init, of evs]
  by (auto simp: emitter_inv_def once_inv_def idle_def)

lemma emitter_exec_append:
  "emitter_exec (xs @ ys) e = emitter_exec ys (emitter_exec xs e)"
  by (induction xs arbitrary: e) simp_all

section \<open>The value cell: a burst of writes and the fan-out that follows\<close>

text \<open>
  A sequence of writes leaves the observers, the record of calls and the loop alone, and
  ends with the last value stored. While the scheduler holds a handle the writes leave it
  as it is; from a cleared scheduler, writes of which one differs from the stored value
  trigger it once.
\<close>

lemma currentValue_setValue: "currentValue (setValue v e) = v"
  by (simp add: setValue_def)

lemma writes_frame:
  "callbacks (emitter_exec (map SetValue vs) e) = callbacks e
   \<and> calls (emitter_exec (map SetValue vs) e) = calls e
   \<and> fanout (emitter_exec (map SetValue vs) e) = fanout e"
  by (induction vs arbitrary: e) (simp_all add: setValue_def)

lemma writes_last:
  "vs \<noteq> [] \<Longrightarrow> currentValue (emitter_exec (map SetValue vs) e) = last vs"
proof (induction vs arbitrary: e)
  case Nil
  then show ?case by simp
next
  case (Cons v vs)
  then show ?case
    by (cases vs) (simp_all add: currentValue_setValue)
qed

lemma writes_pending:
  "timeout (emit e) \<noteq> None \<Longrightarrow> emit (emitter_exec (map SetValue vs) e) = emit e"
  by (induction vs arbitrary: e) (simp_all add: setValue_def trigger_def)

lemma writes_schedule:
  "timeout (emit e) = None \<Longrightarrow> \<exists>v\<in>set vs. v \<noteq> currentValue e \<Longrightarrow>
     emit (emitter_exec (map SetValue vs) e) = trigger (emit e)"
proof (induction vs arbitrary: e)
  case Nil
  then show ?case by simp
next
  case (Cons v vs)
  show ?case
  proof (cases "currentValue e = v")
    case True
    then have same: "setValue v e = e"
      by (simp add: setValue_def)
    from Cons.prems True have "\<exists>w\<in>set vs. w \<noteq> currentValue e"
      by auto
    with Cons.IH [OF Cons.prems(1)] same show ?thesis
      by simp
  next
    case False
    then have "emit (setValue v e) = trigger (emit e)"
      by (simp add: setValue_def)
    moreover from Cons.prems(1) have "timeout (trigger (emit e)) \<noteq> None"
      by (simp add: trigger_def)
    ultimately show ?thesis
      using writes_pending [of "setValue v e" vs] by simp
  qed
qed

text \<open>
  A suspended loop that resumes until it is over, with nothing in between, calls each
  remaining observer once, in order, with the stored value. A whole fan-out from a queued
  run calls every observer so, and clears the scheduler.
\<close>

lemma loop_runs:
  "fanout e = Some i \<Longrightarrow> i \<le> length (callbacks e) \<Longrightarrow> m = length (callbacks e) - i \<Longrightarrow>
     emitter_exec (replicate (Suc m) (Tick LoopResumes)) e
       = e\<lparr>calls := calls e @ map (\<lambda>c. FanOut (fst c) (currentValue e)) (drop i (callbacks e)),
            fanout := None\<rparr>"
proof (induction m arbitrary: i e)
  case 0
  then show ?case
    by (simp add: iteration_def)
next
  case (Suc m)
  let ?e' = "e\<lparr>calls := calls e @ [FanOut (fst (callbacks e ! i)) (currentValue e)],
               fanout := Some (Suc i)\<rparr>"
  from Suc.prems have lt: "i < length (callbacks e)"
    by simp
  with Suc.prems have first: "emitter_step (Tick LoopResumes) e = ?e'"
    by (simp add: iteration_def)
  have "emitter_exec (replicate (Suc m) (Tick LoopResumes)) ?e'
          = ?e'\<lparr>calls := calls ?e' @ map (\<lambda>c. FanOut (fst c) (currentValue ?e')) (drop (Suc i) (callbacks ?e')),
            fanout := None\<rparr>"
    using Suc.prems lt by (intro Suc.IH) simp_all
  moreover have "drop i (callbacks e) = callbacks e ! i # drop (Suc i) (callbacks e)"
    using lt by (simp add: Cons_nth_drop_Suc)
  ultimately show ?case
    using first by simp
qed

lemma fanout_delivers:
  assumes "queued (emit e) = 1" "executing (emit e) = 0" "fanout e = None"
  shows "emitter_exec (whole_fanout e) e
           = e\<lparr>calls := calls e @ map (\<lambda>c. FanOut (fst c) (currentValue e)) (callbacks e),
                emit := (emit e)\<lparr>queued := 0, timeout := None\<rparr>\<rparr>"
proof (cases "callbacks e")
  case Nil
  with assms show ?thesis
    by (simp add: whole_fanout_def iteration_def begin_run_def settle_def)
next
  case (Cons c cs)
  let ?e1 = "e\<lparr>emit := begin_run ReturnsResult (emit e),
                calls := calls e @ [FanOut (fst c) (currentValue e)], fanout := Some 1\<rparr>"
  have fire: "emitter_step (Tick EmitFires) e = ?e1"
    using assms Cons by (simp add: iteration_def)
  have loop: "emitter_exec (replicate (Suc (length cs)) (Tick LoopResumes)) ?e1
      = ?e1\<lparr>calls := calls ?e1 @ map (\<lambda>c. FanOut (fst c) (currentValue ?e1)) (drop 1 (callbacks ?e1)),
            fanout := None\<rparr>"
    using Cons by (intro loop_runs) simp_all
  have len: "length (callbacks e) = Suc (length cs)"
    using Cons by simp
  have "emitter_exec (whole_fanout e) e
      = emitter_exec (replicate (Suc (length cs)) (Tick LoopResumes) @ [Tick EmitSettles])
          (emitter_step (Tick EmitFires) e)"
    unfolding whole_fanout_def len by (simp only: emitter_exec.simps)
  also have "\<dots> = emitter_exec [Tick EmitSettles]
      (emitter_exec (replicate (Suc (length cs)) (Tick LoopResumes)) ?e1)"
    by (simp only: emitter_exec_append fire)
  also have "\<dots> = emitter_exec [Tick EmitSettles]
      (?e1\<lparr>calls := calls ?e1 @ map (\<lambda>c. FanOut (fst c) (currentValue ?e1)) (drop 1 (callbacks ?e1)),
            fanout := None\<rparr>)"
    by (simp only: loop)
  also have "\<dots> = e\<lparr>calls := calls e @ map (\<lambda>c. FanOut (fst c) (currentValue e)) (callbacks e),
                emit := (emit e)\<lparr>queued := 0, timeout := None\<rparr>\<rparr>"
    using assms Cons by (simp add: begin_run_def settle_def)
  finally show ?thesis .
qed

text \<open>
  Writes that all equal the stored value leave the cell as it is, and the event loop has
  nothing to do for an idle cell. From an idle cell, a burst with a write that differs
  from the stored value and the whole fan-out after it leave the last value stored, one
  call for every observer recorded, one more run counted, and the cell idle.
\<close>

lemma writes_unchanged:
  "\<forall>v\<in>set vs. v = currentValue e \<Longrightarrow> emitter_exec (map SetValue vs) e = e"
  by (induction vs) (simp_all add: setValue_def)

lemma idle_fanout_nothing: "idle e \<Longrightarrow> emitter_exec (whole_fanout e) e = e"
proof -
  assume i: "idle e"
  have r: "emitter_exec (replicate n (Tick LoopResumes)) e = e" for n
    using i by (induction n) (simp_all add: idle_def)
  have "emitter_exec [Tick EmitSettles] e = e"
    using i by (simp add: idle_def settle_def)
  moreover have "emitter_step (Tick EmitFires) e = e"
    using i by (simp add: idle_def)
  ultimately show ?thesis
    unfolding whole_fanout_def by (simp only: emitter_exec.simps emitter_exec_append r)
qed

lemma whole_fanout_same: "callbacks a = callbacks b \<Longrightarrow> whole_fanout a = whole_fanout b"
  by (simp add: whole_fanout_def)

lemma burst_fanout:
  assumes i: "idle e" and ch: "\<exists>v\<in>set vs. v \<noteq> currentValue e"
  shows "emitter_exec (map SetValue vs @ whole_fanout e) e
           = e\<lparr>currentValue := last vs,
               calls := calls e @ map (\<lambda>c. FanOut (fst c) (last vs)) (callbacks e),
               emit := (emit e)\<lparr>scheduled := Suc (scheduled (emit e))\<rparr>\<rparr>"
proof -
  let ?e1 = "emitter_exec (map SetValue vs) e"
  from ch have ne: "vs \<noteq> []"
    by auto
  from i have t: "timeout (emit e) = None"
    by (simp add: idle_def)
  have em: "emit ?e1 = trigger (emit e)"
    using t ch by (rule writes_schedule)
  have fr: "callbacks ?e1 = callbacks e" "calls ?e1 = calls e" "fanout ?e1 = fanout e"
    using writes_frame [of vs e] by simp_all
  have cv: "currentValue ?e1 = last vs"
    using ne by (rule writes_last)
  have wf: "whole_fanout ?e1 = whole_fanout e"
    by (simp add: whole_fanout_def fr)
  have "emitter_exec (whole_fanout ?e1) ?e1
          = ?e1\<lparr>calls := calls ?e1 @ map (\<lambda>c. FanOut (fst c) (currentValue ?e1)) (callbacks ?e1),
                emit := (emit ?e1)\<lparr>queued := 0, timeout := None\<rparr>\<rparr>"
    using i by (intro fanout_delivers) (simp_all add: em fr idle_def trigger_def)
  then have run: "emitter_exec (map SetValue vs @ whole_fanout e) e
          = ?e1\<lparr>calls := calls e @ map (\<lambda>c. FanOut (fst c) (last vs)) (callbacks e),
                emit := (trigger (emit e))\<lparr>queued := 0, timeout := None\<rparr>\<rparr>"
    by (simp add: emitter_exec_append wf fr em cv)
  have "?e1\<lparr>calls := calls e @ map (\<lambda>c. FanOut (fst c) (last vs)) (callbacks e),
                emit := (trigger (emit e))\<lparr>queued := 0, timeout := None\<rparr>\<rparr>
      = e\<lparr>currentValue := last vs,
               calls := calls e @ map (\<lambda>c. FanOut (fst c) (last vs)) (callbacks e),
               emit := (emit e)\<lparr>scheduled := Suc (scheduled (emit e))\<rparr>\<rparr>"
    using i fr cv by (intro ValueEmitter.equality) (simp_all add: idle_def trigger_def)
  with run show ?thesis
    by simp
qed

lemma burst_fanout_idle:
  "idle e \<Longrightarrow> \<exists>v\<in>set vs. v \<noteq> currentValue e \<Longrightarrow>
     idle (emitter_exec (map SetValue vs @ whole_fanout e) e)"
  by (simp add: burst_fanout) (simp add: idle_def)

text \<open>
  Why the cell must be idle before the burst. Two observers, whose calls return; healthy
  is written and the run begins: the first observer is called with healthy and the loop
  is suspended. A write of unhealthy made now finds \<^verbatim>\<open>timeout\<close> set and schedules
  nothing; the loop resumes and calls the second observer with unhealthy. When the run
  has settled nothing is queued, and the first observer has not been called with the
  stored value.
\<close>

lemma write_during_fanout:
  "calls (emitter_exec
      [OnChange (3, always Returns), OnChange (5, always Returns),
       SetValue (Some Healthy), Tick EmitFires, SetValue (Some Unhealthy),
       Tick LoopResumes, Tick LoopResumes, Tick EmitSettles, Tick EmitFires]
      (createValueEmitter :: HealthStatus ValueEmitter))
     = [Replay 3 None, Replay 5 None, FanOut 3 (Some Healthy), FanOut 5 (Some Unhealthy)]
   \<and> valueOf (emitter_exec
      [OnChange (3, always Returns), OnChange (5, always Returns),
       SetValue (Some Healthy), Tick EmitFires, SetValue (Some Unhealthy),
       Tick LoopResumes, Tick LoopResumes, Tick EmitSettles, Tick EmitFires]
      (createValueEmitter :: HealthStatus ValueEmitter)) = Some Unhealthy
   \<and> idle (emitter_exec
      [OnChange (3, always Returns), OnChange (5, always Returns),
       SetValue (Some Healthy), Tick EmitFires, SetValue (Some Unhealthy),
       Tick LoopResumes, Tick LoopResumes, Tick EmitSettles, Tick EmitFires]
      (createValueEmitter :: HealthStatus ValueEmitter))"
  by (simp add: createValueEmitter_def createOnceImmediate_def onChange_def always_def
      setValue_def settle_def trigger_def begin_run_def iteration_def valueOf_def idle_def)

text \<open>
  Claim C5, as the specification states it, at a concrete execution: a new cell with one
  observer, and the one write \<^verbatim>\<open>setValue(undefined)\<close>. The claim says the observer
  receives exactly one change callback. The write stores nothing, since the value is the
  stored one, and triggers nothing: after the event loop has had its turns, the only call
  the observer has received is the replay of its subscription.
\<close>

theorem unchanged_write_counterexample:
  "calls (emitter_exec
      [OnChange (0, always Returns), SetValue None, Tick EmitFires, Tick LoopResumes,
       Tick EmitSettles]
      (createValueEmitter :: HealthStatus ValueEmitter)) = [Replay 0 None]"
  by (simp add: createValueEmitter_def createOnceImmediate_def onChange_def always_def
      setValue_def settle_def)

text \<open>
  Claim C5, amended. Take a cell in any state it reaches from its creation in which the
  scheduler has no run pending or executing, and a sequence of writes. If at least one
  of them differs from the value stored before the sequence, then after the writes and
  the whole fan-out that follows, with no write or subscription in between, the calls
  made are one call for every registered observer, in registration order, each with the
  last value written; no other value is delivered, and the cell is idle again. If all of
  them equal the stored value, the writes leave the cell as it is, and so do the turns of
  the event loop after them: no fan-out is scheduled and no observer is called.
\<close>

theorem writes_coalesce:
  assumes "e = emitter_exec evs createValueEmitter"
    and "timeout (emit e) = None"
  shows "((\<exists>v\<in>set vs. v \<noteq> currentValue e) \<longrightarrow>
            calls (emitter_exec (map SetValue vs @ whole_fanout e) e)
              = calls e @ map (\<lambda>c. FanOut (fst c) (last vs)) (callbacks e)
            \<and> idle (emitter_exec (map SetValue vs @ whole_fanout e) e))
         \<and> ((\<forall>v\<in>set vs. v = currentValue e) \<longrightarrow>
            emitter_exec (map SetValue vs) e = e
            \<and> emitter_exec (map SetValue vs @ whole_fanout e) e = e)"
proof -
  from assms have i: "idle e"
    using reachable_idle by blast
  have same: "emitter_exec (map SetValue vs @ whole_fanout e) e = e"
    if "\<forall>v\<in>set vs. v = currentValue e"
    using that i by (simp add: emitter_exec_append writes_unchanged idle_fanout_nothing)
  have "calls (emitter_exec (map SetValue vs @ whole_fanout e) e)
              = calls e @ map (\<lambda>c. FanOut (fst c) (last vs)) (callbacks e)"
    if "\<exists>v\<in>set vs. v \<noteq> currentValue e"
    using i that by (simp add: burst_fanout)
  moreover have "idle (emitter_exec (map SetValue vs @ whole_fanout e) e)"
    if "\<exists>v\<in>set vs. v \<noteq> currentValue e"
    using i that by (rule burst_fanout_idle)
  ultimately show ?thesis
    using same writes_unchanged [of vs e] by blast
qed

theorem writes_coalesce_witness:
  "calls (emitter_exec
      [OnChange (3, always Returns), OnChange (5, always Throws),
       SetValue (Some Unhealthy), SetValue None, SetValue (Some Healthy),
       Tick EmitFires, Tick LoopResumes, Tick LoopResumes, Tick EmitSettles]
      (createValueEmitter :: HealthStatus ValueEmitter))
   = [Replay 3 None, Replay 5 None, FanOut 3 (Some Healthy), FanOut 5 (Some Healthy)]
   \<and> calls (emitter_exec
      [OnChange (3, always Returns), OnChange (5, always Throws),
       SetValue None, SetValue None,
       Tick EmitFires, Tick LoopResumes, Tick LoopResumes, Tick EmitSettles]
      (createValueEmitter :: HealthStatus ValueEmitter))
   = [Replay 3 None, Replay 5 None]"
proof -
  let ?e = "emitter_exec [OnChange (3, always Returns), OnChange (5, always Throws)]
      (createValueEmitter :: HealthStatus ValueEmitter)"
  have t: "timeout (emit ?e) = None"
    by (simp add: createValueEmitter_def createOnceImmediate_def onChange_def always_def)
  have c: "\<exists>v\<in>set [Some Unhealthy, None, Some Healthy]. v \<noteq> currentValue ?e"
    and n: "\<forall>v\<in>set [None, None]. v = currentValue ?e"
    by (simp_all add: createValueEmitter_def createOnceImmediate_def onChange_def always_def)
  have cs: "callbacks ?e = [(3, always Returns), (5, always Throws)]"
    and cl: "calls ?e = [Replay 3 None, Replay 5 None]"
    by (simp_all add: createValueEmitter_def createOnceImmediate_def onChange_def always_def)
  have w: "whole_fanout ?e = [Tick EmitFires, Tick LoopResumes, Tick LoopResumes, Tick EmitSettles]"
    unfolding whole_fanout_def cs by simp
  have split: "emitter_exec
      [OnChange (3, always Returns), OnChange (5, always Throws),
       SetValue (Some Unhealthy), SetValue None, SetValue (Some Healthy),
       Tick EmitFires, Tick LoopResumes, Tick LoopResumes, Tick EmitSettles]
      (createValueEmitter :: HealthStatus ValueEmitter)
      = emitter_exec (map SetValue [Some Unhealthy, None, Some Healthy] @ whole_fanout ?e) ?e"
    "emitter_exec
      [OnChange (3, always Returns), OnChange (5, always Throws),
       SetValue None, SetValue None,
       Tick EmitFires, Tick LoopResumes, Tick LoopResumes, Tick EmitSettles]
      (createValueEmitter :: HealthStatus ValueEmitter)
      = emitter_exec (map SetValue [None, None] @ whole_fanout ?e) ?e"
    unfolding w by (simp_all only: emitter_exec.simps list.map append.simps)
  show ?thesis
    unfolding split
    using c n writes_coalesce [OF refl t, of "[Some Unhealthy, None, Some Healthy]"]
      writes_coalesce [OF refl t, of "[None, None]"]
    by (simp add: cs cl del: emitter_exec.simps)
qed

section \<open>The value cell: consecutive fan-outs\<close>

text \<open>
  Claim C6, as the specification states it, at a concrete execution: one observer; the
  value healthy is written and delivered; then, before the next run, unhealthy and
  healthy are written. The claim says no two consecutive fan-outs carry the same value.
  The second write differs from the stored value and schedules a run, the third restores
  healthy, and the run delivers the value stored when it executes: healthy again.
\<close>

theorem repeated_delivery_counterexample:
  "delivered (calls (emitter_exec
      [OnChange (0, always Returns),
       SetValue (Some Healthy), Tick EmitFires, Tick LoopResumes, Tick EmitSettles,
       SetValue (Some Unhealthy), SetValue (Some Healthy),
       Tick EmitFires, Tick LoopResumes, Tick EmitSettles]
      (createValueEmitter :: HealthStatus ValueEmitter))) = [Some Healthy, Some Healthy]"
  by (simp add: createValueEmitter_def createOnceImmediate_def onChange_def always_def
      setValue_def settle_def trigger_def begin_run_def iteration_def)

text \<open>
  The values delivered are read off the record of calls. A burst with a write that
  differs from the stored value has at least one changing write, and at least two when it
  ends on the value stored before it.
\<close>

lemma delivered_append: "delivered (xs @ ys) = delivered xs @ delivered ys"
proof (induction xs)
  case Nil
  then show ?case by simp
next
  case (Cons c xs)
  then show ?case by (cases c) simp_all
qed

lemma delivered_fanout:
  "delivered (map (\<lambda>c. FanOut (fst c) v) cs) = replicate (length cs) v"
  by (induction cs) simp_all

lemma changing_writes_once:
  "\<exists>v\<in>set vs. v \<noteq> currentValue e \<Longrightarrow> 1 \<le> changing_writes (map SetValue vs) e"
proof (induction vs arbitrary: e)
  case Nil
  then show ?case by simp
next
  case (Cons v vs)
  show ?case
  proof (cases "currentValue e = v")
    case True
    then have "setValue v e = e"
      by (simp add: setValue_def)
    moreover from Cons.prems True have "\<exists>w\<in>set vs. w \<noteq> currentValue e"
      by auto
    ultimately show ?thesis
      using Cons.IH [of e] by simp
  next
    case False
    then show ?thesis by simp
  qed
qed

lemma changing_writes_back:
  "\<exists>v\<in>set vs. v \<noteq> currentValue e \<Longrightarrow> last vs = currentValue e \<Longrightarrow>
     2 \<le> changing_writes (map SetValue vs) e"
proof (induction vs arbitrary: e)
  case Nil
  then show ?case by simp
next
  case (Cons v vs)
  show ?case
  proof (cases "currentValue e = v")
    case True
    then have same: "setValue v e = e"
      by (simp add: setValue_def)
    from Cons.prems True have ex: "\<exists>w\<in>set vs. w \<noteq> currentValue e"
      by auto
    then have "vs \<noteq> []"
      by auto
    with Cons.prems have "last vs = currentValue e"
      by simp
    with Cons.IH [OF ex] same True show ?thesis
      by simp
  next
    case False
    with Cons.prems have ne: "vs \<noteq> []"
      by auto
    with Cons.prems have l: "last vs = currentValue e"
      by simp
    have "currentValue (setValue v e) = v"
      by (rule currentValue_setValue)
    with False l ne have "\<exists>w\<in>set vs. w \<noteq> currentValue (setValue v e)"
      by (metis last_in_set)
    then have "1 \<le> changing_writes (map SetValue vs) (setValue v e)"
      by (rule changing_writes_once)
    with False show ?thesis
      by simp
  qed
qed

text \<open>
  Two bursts, each followed by its whole fan-out, from an idle cell.
\<close>

lemma clean_fanouts:
  assumes "e = emitter_exec evs createValueEmitter"
    and "timeout (emit e) = None"
    and "\<exists>v\<in>set vs1. v \<noteq> currentValue e"
    and "\<exists>v\<in>set vs2. v \<noteq> last vs1"
  shows "delivered (calls (emitter_exec
            (map SetValue vs1 @ whole_fanout e @ map SetValue vs2 @ whole_fanout e) e))
          = delivered (calls e) @ replicate (length (callbacks e)) (last vs1)
              @ replicate (length (callbacks e)) (last vs2)
         \<and> (last vs2 = last vs1 \<longrightarrow>
              2 \<le> changing_writes (map SetValue vs2)
                    (emitter_exec (map SetValue vs1 @ whole_fanout e) e))
         \<and> (changing_writes (map SetValue vs2)
                    (emitter_exec (map SetValue vs1 @ whole_fanout e) e) = 1 \<longrightarrow>
              last vs2 \<noteq> last vs1)"
proof -
  let ?e1 = "emitter_exec (map SetValue vs1 @ whole_fanout e) e"
  from assms(1,2) have i: "idle e"
    using reachable_idle by blast
  have e1: "?e1 = e\<lparr>currentValue := last vs1,
               calls := calls e @ map (\<lambda>c. FanOut (fst c) (last vs1)) (callbacks e),
               emit := (emit e)\<lparr>scheduled := Suc (scheduled (emit e))\<rparr>\<rparr>"
    using i assms(3) by (rule burst_fanout)
  have i1: "idle ?e1"
    using i assms(3) by (rule burst_fanout_idle)
  have cv: "currentValue ?e1 = last vs1" and cb: "callbacks ?e1 = callbacks e"
    and cl: "calls ?e1 = calls e @ map (\<lambda>c. FanOut (fst c) (last vs1)) (callbacks e)"
    by (simp_all add: e1)
  have wf: "whole_fanout ?e1 = whole_fanout e"
    using cb by (rule whole_fanout_same)
  from assms(4) have ch2: "\<exists>v\<in>set vs2. v \<noteq> currentValue ?e1"
    by (simp only: cv)
  have "emitter_exec (map SetValue vs1 @ whole_fanout e @ map SetValue vs2 @ whole_fanout e) e
      = emitter_exec (map SetValue vs2 @ whole_fanout ?e1) ?e1"
    by (simp only: wf) (simp only: emitter_exec_append)
  also have "\<dots> = ?e1\<lparr>currentValue := last vs2,
               calls := calls ?e1 @ map (\<lambda>c. FanOut (fst c) (last vs2)) (callbacks ?e1),
               emit := (emit ?e1)\<lparr>scheduled := Suc (scheduled (emit ?e1))\<rparr>\<rparr>"
    using i1 ch2 by (rule burst_fanout)
  finally have "calls (emitter_exec
            (map SetValue vs1 @ whole_fanout e @ map SetValue vs2 @ whole_fanout e) e)
      = calls e @ map (\<lambda>c. FanOut (fst c) (last vs1)) (callbacks e)
          @ map (\<lambda>c. FanOut (fst c) (last vs2)) (callbacks e)"
    by (simp add: cl cb del: emitter_exec.simps)
  then have d: "delivered (calls (emitter_exec
            (map SetValue vs1 @ whole_fanout e @ map SetValue vs2 @ whole_fanout e) e))
          = delivered (calls e) @ replicate (length (callbacks e)) (last vs1)
              @ replicate (length (callbacks e)) (last vs2)"
    by (simp only: delivered_append delivered_fanout)
  have two: "2 \<le> changing_writes (map SetValue vs2) ?e1" if "last vs2 = last vs1"
    using ch2 that by (intro changing_writes_back) (simp_all only: cv)
  from d two show ?thesis
    by auto
qed

text \<open>
  In any execution: the run that begins calls the first observer with the stored value;
  from there on, as long as no write has changed the stored value, it is the value of
  that call and nothing is queued, and after exactly one changing write it differs from
  it. So the next run begins only after a changing write, and with the same value only
  after two.
\<close>

lemma callbacks_grow: "callbacks s \<noteq> [] \<Longrightarrow> callbacks (emitter_exec evs s) \<noteq> []"
proof (induction evs arbitrary: s)
  case Nil
  then show ?case by simp
next
  case (Cons ev evs)
  have "callbacks (emitter_step ev s) \<noteq> []"
  proof (cases ev)
    case (SetValue v)
    with Cons.prems show ?thesis by (simp add: setValue_def)
  next
    case (OnChange c)
    then show ?thesis by (simp add: onChange_def Let_def split: cb_result.splits)
  next
    case (Tick k)
    with Cons.prems show ?thesis
      by (cases k) (simp_all add: iteration_def split: option.splits)
  qed
  then show ?case
    using Cons.IH by simp
qed

lemma fire_delivers:
  "0 < queued (emit s) \<Longrightarrow> callbacks s \<noteq> [] \<Longrightarrow>
     delivered (calls (tick_step EmitFires s)) = delivered (calls s) @ [currentValue s]"
  by (simp add: iteration_def delivered_append)

lemma since_delivery_step:
  assumes "ev \<noteq> Tick EmitFires"
    and "(c = 0 \<longrightarrow> currentValue s = d \<and> queued (emit s) = 0) \<and> (c = Suc 0 \<longrightarrow> currentValue s \<noteq> d)"
  shows "(c + changing_writes [ev] s = 0 \<longrightarrow>
            currentValue (emitter_step ev s) = d \<and> queued (emit (emitter_step ev s)) = 0)
         \<and> (c + changing_writes [ev] s = Suc 0 \<longrightarrow> currentValue (emitter_step ev s) \<noteq> d)"
proof (cases ev)
  case (SetValue v)
  with assms(2) show ?thesis
    by (auto simp: setValue_def)
next
  case (OnChange cb)
  with assms(2) show ?thesis
    by (auto simp: onChange_def Let_def split: cb_result.splits)
next
  case (Tick k)
  with assms show ?thesis
    by (cases k) (auto simp: iteration_def settle_def split: option.splits)
qed

lemma since_delivery_exec:
  assumes "Tick EmitFires \<notin> set evs"
    and "(c = 0 \<longrightarrow> currentValue s = d \<and> queued (emit s) = 0) \<and> (c = Suc 0 \<longrightarrow> currentValue s \<noteq> d)"
  shows "(c + changing_writes evs s = 0 \<longrightarrow>
            currentValue (emitter_exec evs s) = d \<and> queued (emit (emitter_exec evs s)) = 0)
         \<and> (c + changing_writes evs s = Suc 0 \<longrightarrow> currentValue (emitter_exec evs s) \<noteq> d)"
  using assms
proof (induction evs arbitrary: c s)
  case Nil
  then show ?case by simp
next
  case (Cons ev evs)
  from Cons.prems(1) have ne: "ev \<noteq> Tick EmitFires" and rest: "Tick EmitFires \<notin> set evs"
    by auto
  note st = since_delivery_step [OF ne Cons.prems(2)]
  have "c + changing_writes (ev # evs) s
      = (c + changing_writes [ev] s) + changing_writes evs (emitter_step ev s)"
    by simp
  with Cons.IH [OF rest st] show ?case
    by simp
qed

lemma next_run_needs_change:
  assumes reach: "e = emitter_exec evs createValueEmitter"
    and q: "0 < queued (emit e)"
    and nofire: "Tick EmitFires \<notin> set mid"
    and q2: "0 < queued (emit (emitter_exec mid (tick_step EmitFires e)))"
  shows "1 \<le> changing_writes mid (tick_step EmitFires e)
         \<and> (currentValue (emitter_exec mid (tick_step EmitFires e)) = currentValue e
              \<longrightarrow> 2 \<le> changing_writes mid (tick_step EmitFires e))"
proof -
  let ?e1 = "tick_step EmitFires e"
  have inv: "emitter_inv e"
    unfolding reach by (rule emitter_inv_exec) (rule emitter_inv_init)
  with q have "queued (emit e) = 1"
    by (simp add: emitter_inv_def once_inv_def)
  then have start: "currentValue ?e1 = currentValue e \<and> queued (emit ?e1) = 0"
    by (simp add: iteration_def begin_run_def)
  have "(0 + changing_writes mid ?e1 = 0 \<longrightarrow>
            currentValue (emitter_exec mid ?e1) = currentValue e
            \<and> queued (emit (emitter_exec mid ?e1)) = 0)
         \<and> (0 + changing_writes mid ?e1 = Suc 0 \<longrightarrow>
            currentValue (emitter_exec mid ?e1) \<noteq> currentValue e)"
    using nofire start by (intro since_delivery_exec) simp_all
  with q2 show ?thesis
    by (cases "changing_writes mid ?e1"; cases "changing_writes mid ?e1 - 1") auto
qed

text \<open>
  Claim C6, amended. In every execution of a cell, take a fan-out run that begins with
  observers registered, and the next run to begin after it. Each run calls the first
  observer with the value stored as it begins. Between the beginnings of the two runs at
  least one write has changed the stored value, and the second run carries the same
  value as the first only if the stored value was changed at least twice in between
  (changed away and changed back). For fan-outs that run to completion from an idle cell
  with no write in between their calls: two bursts of writes that each change the stored
  value deliver, to every observer, the last value of the first burst and then the last
  value of the second; these two values are identical only if the second burst changed
  the stored value at least twice, and they differ when it changed it exactly once.
\<close>

theorem consecutive_fanouts:
  assumes "e = emitter_exec evs createValueEmitter"
  shows
    "(0 < queued (emit e) \<and> callbacks e \<noteq> [] \<and> Tick EmitFires \<notin> set mid
        \<and> 0 < queued (emit (emitter_exec mid (tick_step EmitFires e))) \<longrightarrow>
          delivered (calls (tick_step EmitFires e)) = delivered (calls e) @ [currentValue e]
          \<and> delivered (calls (tick_step EmitFires (emitter_exec mid (tick_step EmitFires e))))
              = delivered (calls (emitter_exec mid (tick_step EmitFires e)))
                  @ [currentValue (emitter_exec mid (tick_step EmitFires e))]
          \<and> 1 \<le> changing_writes mid (tick_step EmitFires e)
          \<and> (currentValue (emitter_exec mid (tick_step EmitFires e)) = currentValue e \<longrightarrow>
                2 \<le> changing_writes mid (tick_step EmitFires e)))
     \<and> (timeout (emit e) = None \<and> (\<exists>v\<in>set vs1. v \<noteq> currentValue e)
        \<and> (\<exists>v\<in>set vs2. v \<noteq> last vs1) \<longrightarrow>
          delivered (calls (emitter_exec
              (map SetValue vs1 @ whole_fanout e @ map SetValue vs2 @ whole_fanout e) e))
            = delivered (calls e) @ replicate (length (callbacks e)) (last vs1)
                @ replicate (length (callbacks e)) (last vs2)
          \<and> (last vs2 = last vs1 \<longrightarrow>
                2 \<le> changing_writes (map SetValue vs2)
                      (emitter_exec (map SetValue vs1 @ whole_fanout e) e))
          \<and> (changing_writes (map SetValue vs2)
                      (emitter_exec (map SetValue vs1 @ whole_fanout e) e) = 1 \<longrightarrow>
                last vs2 \<noteq> last vs1))"
proof (intro conjI impI)
  assume h: "0 < queued (emit e) \<and> callbacks e \<noteq> [] \<and> Tick EmitFires \<notin> set mid
        \<and> 0 < queued (emit (emitter_exec mid (tick_step EmitFires e)))"
  let ?e2 = "emitter_exec mid (tick_step EmitFires e)"
  from h have q: "0 < queued (emit e)" and cb: "callbacks e \<noteq> []"
    and nf: "Tick EmitFires \<notin> set mid" and q2: "0 < queued (emit ?e2)"
    by blast+
  from q cb show "delivered (calls (tick_step EmitFires e)) = delivered (calls e) @ [currentValue e]"
    by (rule fire_delivers)
  from q cb have "callbacks (tick_step EmitFires e) \<noteq> []"
    by (simp add: iteration_def)
  then have "callbacks ?e2 \<noteq> []"
    by (rule callbacks_grow)
  with q2 show "delivered (calls (tick_step EmitFires ?e2))
              = delivered (calls ?e2) @ [currentValue ?e2]"
    by (rule fire_delivers)
  note n = next_run_needs_change [OF assms q nf q2]
  from n show "1 \<le> changing_writes mid (tick_step EmitFires e)"
    by blast
  assume "currentValue ?e2 = currentValue e"
  with n show "2 \<le> changing_writes mid (tick_step EmitFires e)"
    by blast
next
  assume h: "timeout (emit e) = None \<and> (\<exists>v\<in>set vs1. v \<noteq> currentValue e)
        \<and> (\<exists>v\<in>set vs2. v \<noteq> last vs1)"
  then have c: "delivered (calls (emitter_exec
            (map SetValue vs1 @ whole_fanout e @ map SetValue vs2 @ whole_fanout e) e))
          = delivered (calls e) @ replicate (length (callbacks e)) (last vs1)
              @ replicate (length (callbacks e)) (last vs2)
         \<and> (last vs2 = last vs1 \<longrightarrow>
              2 \<le> changing_writes (map SetValue vs2)
                    (emitter_exec (map SetValue vs1 @ whole_fanout e) e))
         \<and> (changing_writes (map SetValue vs2)
                    (emitter_exec (map SetValue vs1 @ whole_fanout e) e) = 1 \<longrightarrow>
              last vs2 \<noteq> last vs1)"
    using clean_fanouts [OF assms, of vs1 vs2] by blast
  from c show "delivered (calls (emitter_exec
            (map SetValue vs1 @ whole_fanout e @ map SetValue vs2 @ whole_fanout e) e))
          = delivered (calls e) @ replicate (length (callbacks e)) (last vs1)
              @ replicate (length (callbacks e)) (last vs2)"
    by blast
  {
    assume "last vs2 = last vs1"
    with c show "2 \<le> changing_writes (map SetValue vs2)
                    (emitter_exec (map SetValue vs1 @ whole_fanout e) e)"
      by blast
  }
  {
    assume "changing_writes (map SetValue vs2)
                    (emitter_exec (map SetValue vs1 @ whole_fanout e) e) = 1"
    with c show "last vs2 \<noteq> last vs1"
      by auto
  }
qed

theorem consecutive_fanouts_witness:
  "delivered (calls (emitter_exec
      [OnChange (3, always Returns), SetValue (Some Healthy), Tick EmitFires, SetValue None,
       Tick LoopResumes, Tick EmitSettles, SetValue (Some Healthy), Tick EmitFires]
      (createValueEmitter :: HealthStatus ValueEmitter))) = [Some Healthy, Some Healthy]
   \<and> 2 \<le> changing_writes
        [SetValue None, Tick LoopResumes, Tick EmitSettles, SetValue (Some Healthy)]
        (emitter_exec [OnChange (3, always Returns), SetValue (Some Healthy), Tick EmitFires]
          (createValueEmitter :: HealthStatus ValueEmitter))
   \<and> delivered (calls (emitter_exec
      [OnChange (3, always Returns), SetValue (Some Healthy), Tick EmitFires, Tick LoopResumes,
       Tick EmitSettles, SetValue (Some Unhealthy), Tick EmitFires, Tick LoopResumes,
       Tick EmitSettles]
      (createValueEmitter :: HealthStatus ValueEmitter))) = [Some Healthy, Some Unhealthy]
   \<and> delivered (calls (emitter_exec
      [OnChange (3, always Returns), SetValue (Some Healthy), Tick EmitFires, Tick LoopResumes,
       Tick EmitSettles, SetValue (Some Unhealthy), SetValue (Some Healthy), Tick EmitFires,
       Tick LoopResumes, Tick EmitSettles]
      (createValueEmitter :: HealthStatus ValueEmitter))) = [Some Healthy, Some Healthy]"
  using
    consecutive_fanouts [OF refl,
      of "[OnChange (3, always Returns), SetValue (Some Healthy)]"
         "[SetValue None, Tick LoopResumes, Tick EmitSettles, SetValue (Some Healthy)]"
         "[]" "[]"]
    consecutive_fanouts [OF refl, of "[OnChange (3, always Returns)]" "[]"
         "[Some Healthy]" "[Some Unhealthy]"]
    consecutive_fanouts [OF refl, of "[OnChange (3, always Returns)]" "[]"
         "[Some Healthy]" "[Some Unhealthy, Some Healthy]"]
  by (simp add: createValueEmitter_def createOnceImmediate_def onChange_def always_def
      setValue_def settle_def trigger_def begin_run_def iteration_def whole_fanout_def)

section \<open>The value cell: subscribing\<close>

text \<open>
  Claim C10. \<^verbatim>\<open>onChange(callback)\<close> appends the callback to the observers and calls it
  once with the stored value. \<^verbatim>\<open>onChange\<close> throws exactly when that call throws; when
  the call returns a promise that is rejected, \<^verbatim>\<open>onChange\<close> completes. In every case
  the callback is registered: from an idle cell, the fan-out after the next write of a
  different value calls every earlier observer and then the new one with that value.
\<close>

theorem onChange_registers_and_replays:
  "callbacks (snd (onChange cb e)) = callbacks e @ [cb]
   \<and> calls (snd (onChange cb e)) = calls e @ [Replay (fst cb) (currentValue e)]
   \<and> fst (onChange cb e) = (if snd cb (currentValue e) = Throws then Threw else Completed)
   \<and> (idle e \<and> v \<noteq> currentValue e \<longrightarrow>
        calls (emitter_exec (SetValue v # whole_fanout (snd (onChange cb e))) (snd (onChange cb e)))
          = calls e @ Replay (fst cb) (currentValue e)
              # map (\<lambda>c. FanOut (fst c) v) (callbacks e @ [cb]))"
proof -
  let ?e2 = "e\<lparr>callbacks := callbacks e @ [cb],
               calls := calls e @ [Replay (fst cb) (currentValue e)]\<rparr>"
  have s: "snd (onChange cb e) = ?e2"
    by (simp add: onChange_def Let_def split: cb_result.splits)
  have f: "fst (onChange cb e) = (if snd cb (currentValue e) = Throws then Threw else Completed)"
    by (simp add: onChange_def Let_def split: cb_result.splits)
  have later: "calls (emitter_exec (SetValue v # whole_fanout ?e2) ?e2)
          = calls e @ Replay (fst cb) (currentValue e)
              # map (\<lambda>c. FanOut (fst c) v) (callbacks e @ [cb])"
    if "idle e" "v \<noteq> currentValue e"
  proof -
    let ?e3 = "setValue v ?e2"
    have wf: "whole_fanout ?e3 = whole_fanout ?e2"
      by (simp add: whole_fanout_def setValue_def)
    have run: "emitter_exec (whole_fanout ?e3) ?e3
          = ?e3\<lparr>calls := calls ?e3 @ map (\<lambda>c. FanOut (fst c) (currentValue ?e3)) (callbacks ?e3),
                emit := (emit ?e3)\<lparr>queued := 0, timeout := None\<rparr>\<rparr>"
      using that by (intro fanout_delivers) (simp_all add: idle_def setValue_def trigger_def)
    have "calls (emitter_exec (SetValue v # whole_fanout ?e2) ?e2)
        = calls (?e3\<lparr>calls := calls ?e3 @ map (\<lambda>c. FanOut (fst c) (currentValue ?e3)) (callbacks ?e3),
                emit := (emit ?e3)\<lparr>queued := 0, timeout := None\<rparr>\<rparr>)"
      by (simp only: emitter_exec.simps emitter_step.simps wf [symmetric] run)
    also have "\<dots> = calls e @ Replay (fst cb) (currentValue e)
              # map (\<lambda>c. FanOut (fst c) v) (callbacks e @ [cb])"
      using that by (simp add: setValue_def)
    finally show ?thesis .
  qed
  show ?thesis
    using f later by (simp add: s)
qed

theorem onChange_registers_and_replays_witness:
  "fst (onChange (7, always Throws) (createValueEmitter :: HealthStatus ValueEmitter)) = Threw
   \<and> callbacks (snd (onChange (7, always Throws) (createValueEmitter :: HealthStatus ValueEmitter)))
       = [(7, always Throws)]
   \<and> calls (emitter_exec
        [OnChange (7, always Throws), SetValue (Some Healthy), Tick EmitFires, Tick LoopResumes,
         Tick EmitSettles]
        (createValueEmitter :: HealthStatus ValueEmitter))
       = [Replay 7 None, FanOut 7 (Some Healthy)]"
  using onChange_registers_and_replays
      [of "(7, always Throws)" "createValueEmitter :: HealthStatus ValueEmitter" "Some Healthy"]
  by (simp add: createValueEmitter_def createOnceImmediate_def idle_def onChange_def always_def
      setValue_def trigger_def begin_run_def iteration_def settle_def whole_fanout_def)

section \<open>The health poll loop: what a settled probe publishes\<close>

text \<open>
  A probe that resolves stores its status in the cell; a probe that is rejected leaves the
  cell as it is.
\<close>

lemma healthStatus_updateStatus: "healthStatus (updateStatus v t) = v"
  by (simp add: healthStatus_def valueOf_def updateStatus_def currentValue_setValue)

lemma health_run_settles: "health (run_settles r t) = health t"
  by (cases r) (simp_all add: run_settles_def)

lemma probe_resolves_publishes:
  "0 < in_flight t \<Longrightarrow>
     healthStatus (probe_settles (Resolves ok) t) = Some (if ok then Healthy else Unhealthy)"
  by (simp add: probe_settles_def Let_def healthStatus_def valueOf_def health_run_settles
      updateStatus_def currentValue_setValue)

lemma probe_rejects_publishes_nothing: "health (probe_settles Rejects t) = health t"
  by (simp add: probe_settles_def Let_def health_run_settles)

text \<open>
  Claim C3, as the specification states it, at a concrete execution, with a time tracker
  that passes results through: the loop is started, the timer fires and the probe is in
  flight; \<^verbatim>\<open>stop()\<close> resets the health status to absent; then the probe resolves to
  true. The claim says the status stays absent. It is healthy. The same holds after
  \<^verbatim>\<open>dispose()\<close>: the probe that resolves to false publishes unhealthy.
\<close>

theorem probe_after_stop_counterexample:
  "in_flight (health_exec [Start, TimerFires 0] (createHealthStatusTracker id)) = 1
   \<and> healthStatus (health_exec [Start, TimerFires 0, Stop] (createHealthStatusTracker id)) = None
   \<and> healthStatus (health_exec [Start, TimerFires 0, Stop, ProbeSettles (Resolves True)]
        (createHealthStatusTracker id)) = Some Healthy
   \<and> healthStatus (health_exec [Start, TimerFires 0, Dispose, ProbeSettles (Resolves False)]
        (createHealthStatusTracker id)) = Some Unhealthy"
  by (simp add: createHealthStatusTracker_def createValueEmitter_def createOnceImmediate_def
      start_def stop_def dispose_def enqueueUpdateStatus_def timer_fires_def probe_settles_def
      updateStatus_def run_settles_def clearTimeout_def setValue_def trigger_def
      healthStatus_def valueOf_def Let_def)

text \<open>
  Claim C3, amended. When \<^verbatim>\<open>stop()\<close> is called while a probe is in flight, the health
  status is reset to absent and the probe stays in flight; no flag is consulted before
  publishing, so when the probe then resolves, the health status becomes healthy or
  unhealthy by its result. \<^verbatim>\<open>dispose()\<close> only clears the pending timer, the one whose
  handle is in \<^verbatim>\<open>healthCheckTimeout\<close>: apart from the armed timers it leaves the tracker
  as it is (the health status, the flag, the handle, the probe in flight), and the probe
  in flight publishes its result likewise.
\<close>

theorem probe_publishes_after_stop:
  "0 < in_flight t \<Longrightarrow>
     healthStatus (stop t) = None
     \<and> in_flight (stop t) = in_flight t
     \<and> healthStatus (probe_settles (Resolves ok) (stop t))
         = Some (if ok then Healthy else Unhealthy)
     \<and> timers (dispose t)
         = (case healthCheckTimeout t of None \<Rightarrow> timers t | Some k \<Rightarrow> removeAll k (timers t))
     \<and> (dispose t)\<lparr>timers := timers t\<rparr> = t
     \<and> healthStatus (probe_settles (Resolves ok) (dispose t))
         = Some (if ok then Healthy else Unhealthy)"
proof -
  assume f: "0 < in_flight t"
  have s: "in_flight (stop t) = in_flight t" and d: "in_flight (dispose t) = in_flight t"
    by (simp_all add: stop_def dispose_def Let_def)
  have "healthStatus (stop t) = None"
    by (simp add: stop_def Let_def healthStatus_def valueOf_def currentValue_setValue)
  moreover have "healthStatus (probe_settles (Resolves ok) (stop t))
         = Some (if ok then Healthy else Unhealthy)"
    using f by (intro probe_resolves_publishes) (simp add: s)
  moreover have "healthStatus (probe_settles (Resolves ok) (dispose t))
         = Some (if ok then Healthy else Unhealthy)"
    using f by (intro probe_resolves_publishes) (simp add: d)
  moreover have "timers (dispose t)
         = (case healthCheckTimeout t of None \<Rightarrow> timers t | Some k \<Rightarrow> removeAll k (timers t))"
    by (simp add: dispose_def clearTimeout_def)
  moreover have "(dispose t)\<lparr>timers := timers t\<rparr> = t"
    by (simp add: dispose_def)
  ultimately show ?thesis
    using s by simp
qed

theorem probe_publishes_after_stop_witness:
  "0 < in_flight (health_exec [Start, TimerFires 0, Stop, Start] (createHealthStatusTracker id))
   \<and> timers (health_exec [Start, TimerFires 0, Stop, Start] (createHealthStatusTracker id)) = [1]
   \<and> timers (dispose (health_exec [Start, TimerFires 0, Stop, Start] (createHealthStatusTracker id))) = []
   \<and> enqueueAgain (dispose (health_exec [Start, TimerFires 0, Stop, Start] (createHealthStatusTracker id)))
   \<and> healthStatus (stop (health_exec [Start, TimerFires 0, Stop, Start] (createHealthStatusTracker id))) = None
   \<and> healthStatus (probe_settles (Resolves False)
        (stop (health_exec [Start, TimerFires 0, Stop, Start] (createHealthStatusTracker id))))
       = Some Unhealthy
   \<and> healthStatus (probe_settles (Resolves True)
        (dispose (health_exec [Start, TimerFires 0, Stop, Start] (createHealthStatusTracker id))))
       = Some Healthy"
proof -
  let ?t = "health_exec [Start, TimerFires 0, Stop, Start] (createHealthStatusTracker id)"
  have f: "0 < in_flight ?t"
    by (simp add: createHealthStatusTracker_def start_def stop_def enqueueUpdateStatus_def
        timer_fires_def clearTimeout_def Let_def)
  have v: "timers ?t = [1]" "healthCheckTimeout ?t = Some 1" "enqueueAgain ?t"
    by (simp_all add: createHealthStatusTracker_def start_def stop_def enqueueUpdateStatus_def
        timer_fires_def clearTimeout_def Let_def)
  have "enqueueAgain (dispose ?t)"
    using v by (simp add: dispose_def del: health_exec.simps)
  then show ?thesis
    using f v probe_publishes_after_stop [OF f, of False]
      probe_publishes_after_stop [OF f, of True]
    by (simp del: health_exec.simps)
qed

text \<open>
  The probe cycle has no handler of its own: were the promise of \<^verbatim>\<open>fetchHealth()\<close>
  rejected, with a time tracker that passes the rejection on, nothing would be published,
  the rejection would be left unhandled and the \<^verbatim>\<open>then\<close> callback would not run.
\<close>

lemma rejected_promise_unhandled:
  "0 < in_flight t \<Longrightarrow> timeTracker t Rejected = Rejected \<Longrightarrow>
     probe_settles Rejects t = t\<lparr>in_flight := in_flight t - 1, unhandled := Suc (unhandled t)\<rparr>"
  by (simp add: probe_settles_def Let_def run_settles_def)



section \<open>The health poll loop: stopping\<close>

text \<open>
  While \<^verbatim>\<open>enqueueAgain\<close> is false, no event but \<^verbatim>\<open>start()\<close> sets it, calls
  \<^verbatim>\<open>setTimeout\<close> or arms a timer.
\<close>

lemma stopped_step:
  "\<not> enqueueAgain t \<Longrightarrow> ev \<noteq> Start \<Longrightarrow>
     \<not> enqueueAgain (health_step ev t)
     \<and> timers_set (health_step ev t) = timers_set t
     \<and> set (timers (health_step ev t)) \<subseteq> set (timers t)"
proof (cases ev)
  case (ProbeSettles r)
  assume "\<not> enqueueAgain t"
  then show ?thesis
    using ProbeSettles
    by (cases r; cases "timeTracker t Fulfilled"; cases "timeTracker t Rejected")
      (simp_all add: probe_settles_def Let_def updateStatus_def run_settles_def)
qed (auto simp: stop_def dispose_def timer_fires_def then_runs_def clearTimeout_def Let_def
    split: option.splits)

lemma stopped_exec:
  "\<not> enqueueAgain t \<Longrightarrow> Start \<notin> set evs \<Longrightarrow>
     \<not> enqueueAgain (health_exec evs t)
     \<and> timers_set (health_exec evs t) = timers_set t
     \<and> set (timers (health_exec evs t)) \<subseteq> set (timers t)"
proof (induction evs arbitrary: t)
  case Nil
  then show ?case by simp
next
  case (Cons ev evs)
  from Cons.prems have ne: "ev \<noteq> Start" and rest: "Start \<notin> set evs"
    by auto
  note st = stopped_step [OF Cons.prems(1) ne]
  from st have "\<not> enqueueAgain (health_step ev t)"
    by simp
  from Cons.IH [OF this rest] st show ?case
    by auto
qed

text \<open>
  Claim C8. After \<^verbatim>\<open>stop()\<close>, in whatever state it is called (so also with a probe in
  flight), every execution in which \<^verbatim>\<open>start()\<close> is not called again (probes settle,
  \<^verbatim>\<open>then\<close> callbacks run, timers fire, the cell fans out, observers subscribe, the
  tracker is stopped or disposed again) makes no call of \<^verbatim>\<open>setTimeout\<close>: the count
  of timers set is the one before \<^verbatim>\<open>stop()\<close>, and no timer is armed that was not armed
  before.
\<close>

theorem stop_prevents_next_timer:
  "Start \<notin> set evs \<Longrightarrow>
     timers_set (health_exec evs (stop t)) = timers_set t
     \<and> set (timers (health_exec evs (stop t))) \<subseteq> set (timers t)
     \<and> healthCheckTimeout (stop t) = None"
proof -
  assume n: "Start \<notin> set evs"
  have off: "\<not> enqueueAgain (stop t)"
    by (simp add: stop_def Let_def)
  have "timers_set (stop t) = timers_set t" "set (timers (stop t)) \<subseteq> set (timers t)"
    "healthCheckTimeout (stop t) = None"
    by (auto simp: stop_def Let_def clearTimeout_def split: option.splits)
  with stopped_exec [OF off n] show ?thesis
    by auto
qed

theorem stop_prevents_next_timer_witness:
  "in_flight (health_exec [Start, TimerFires 0] (createHealthStatusTracker id)) = 1
   \<and> timers (health_exec [Start, TimerFires 0, Stop, ProbeSettles (Resolves False), ThenRuns]
       (createHealthStatusTracker id)) = []
   \<and> timers_set (health_exec [Start, TimerFires 0, Stop, ProbeSettles (Resolves False), ThenRuns]
       (createHealthStatusTracker id)) = 1
   \<and> timers_set (health_exec [Start, TimerFires 0, ProbeSettles (Resolves False), ThenRuns]
       (createHealthStatusTracker id)) = 2"
proof -
  let ?t = "health_exec [Start, TimerFires 0] (createHealthStatusTracker id)"
  have n: "Start \<notin> set [ProbeSettles (Resolves False), ThenRuns]"
    by simp
  have t: "timers ?t = []" "timers_set ?t = 1" "in_flight ?t = 1"
    by (simp_all add: createHealthStatusTracker_def start_def enqueueUpdateStatus_def
        timer_fires_def)
  have "timers_set (health_exec [Start, TimerFires 0, ProbeSettles (Resolves False), ThenRuns]
       (createHealthStatusTracker id)) = 2"
    by (simp add: createHealthStatusTracker_def createValueEmitter_def createOnceImmediate_def
      start_def enqueueUpdateStatus_def timer_fires_def probe_settles_def then_runs_def
      updateStatus_def run_settles_def setValue_def trigger_def Let_def)
  moreover have "health_exec [Start, TimerFires 0, Stop, ProbeSettles (Resolves False), ThenRuns]
       (createHealthStatusTracker id) = health_exec [ProbeSettles (Resolves False), ThenRuns] (stop ?t)"
    by simp
  ultimately show ?thesis
    using stop_prevents_next_timer [OF n, of ?t] t by (simp del: health_exec.simps)
qed

section \<open>The instance status tracker: forcing a stopped container\<close>

text \<open>
  Claim C9. \<^verbatim>\<open>forceContainerStatus(s)\<close> with a status other than running and stopping,
  that is with stopped, stores \<open>s\<close> as the container status and leaves the instance
  status cell as it is: \<^verbatim>\<open>status()\<close> returns what it returned before, no observer is
  called and no fan-out is scheduled. The health poll loop is left as it is too.
\<close>

theorem force_stopped_leaves_status:
  "newContainerStatus \<noteq> ContainerRunning \<Longrightarrow> newContainerStatus \<noteq> ContainerStopping \<Longrightarrow>
     newContainerStatus = ContainerStopped
     \<and> containerStatus (forceContainerStatus newContainerStatus t) = Some newContainerStatus
     \<and> instanceStatus (forceContainerStatus newContainerStatus t) = instanceStatus t
     \<and> status (forceContainerStatus newContainerStatus t) = status t
     \<and> healthCheckStatusTracker (forceContainerStatus newContainerStatus t)
         = healthCheckStatusTracker t"
  by (cases newContainerStatus) (simp_all add: forceContainerStatus_def Let_def instanceStatus_def)

theorem force_stopped_leaves_status_witness:
  "instanceStatus (forceContainerStatus ContainerRunning (createLocalStackInstanceStatusTracker id))
     = Some Starting
   \<and> instanceStatus (forceContainerStatus ContainerStopped
        (forceContainerStatus ContainerRunning (createLocalStackInstanceStatusTracker id)))
     = Some Starting
   \<and> containerStatus (forceContainerStatus ContainerStopped
        (forceContainerStatus ContainerRunning (createLocalStackInstanceStatusTracker id)))
     = Some ContainerStopped"
proof -
  have "instanceStatus
      (forceContainerStatus ContainerRunning (createLocalStackInstanceStatusTracker id))
     = Some Starting"
    by (simp add: forceContainerStatus_def createLocalStackInstanceStatusTracker_def
        instanceStatus_def valueOf_def Let_def currentValue_setValue)
  then show ?thesis
    using force_stopped_leaves_status [of ContainerStopped
        "forceContainerStatus ContainerRunning (createLocalStackInstanceStatusTracker id)"]
    by simp
qed

end
